theory Spec2Isabelle
  imports Main "HOL-Library.Sublist"
begin

section \<open>Transport: the retrying GET of HTTPClient\<close>

text \<open>
  The three error classes a fetch can end in.  \<open>get\<close> wraps \<open>ErrHTTPNotFound\<close> for a
  404, \<open>ErrHTTPStatusNotOK\<close> for any other status than 200, and reports every failure
  of the request itself (building it, sending it, reading the body) as a plain error.
\<close>

datatype fetch_error = notFound | badStatus nat | transportFailure string

text \<open>What the network does with one request, seen from \<open>HTTPClient.get\<close>.\<close>

datatype http_outcome =
    RequestInvalid
  | DoFailed
  | Response nat "string option"

text \<open>
  The client with its retry policy (\<open>tryCount\<close> is a Go \<open>int\<close>) and the network it
  talks to: the answer may depend on how many requests were sent before, so a flaky
  server is covered.
\<close>

record HTTPClient =
  tryCount :: int
  network :: "nat \<Rightarrow> string \<Rightarrow> http_outcome"

record http_state =
  requests :: "string list"
  sleeps :: nat

definition StatusNotFound :: nat where "StatusNotFound = 404"
definition StatusOK :: nat where "StatusOK = 200"
definition defaultRetryCount :: int where "defaultRetryCount = 3"

definition classify :: "http_outcome \<Rightarrow> fetch_error + string" where
  "classify r =
     (case r of
        RequestInvalid \<Rightarrow> Inl (transportFailure ''failed to create request'')
      | DoFailed \<Rightarrow> Inl (transportFailure ''GET failed'')
      | Response st b \<Rightarrow>
          if st = StatusNotFound then Inl notFound
          else if st \<noteq> StatusOK then Inl (badStatus st)
          else (case b of
                  None \<Rightarrow> Inl (transportFailure ''failed to read response body'')
                | Some bytes \<Rightarrow> Inr bytes))"

text \<open>\<open>HTTPClient.get\<close>: one request, no retry.\<close>

definition get :: "HTTPClient \<Rightarrow> string \<Rightarrow> http_state \<Rightarrow> (fetch_error + string) \<times> http_state" where
  "get h uri s =
     (classify (network h (length (requests s)) uri),
      s\<lparr>requests := requests s @ [uri]\<rparr>)"

text \<open>
  \<open>HTTPClient.Get\<close>: \<open>for attempt := range h.tryCount\<close>.  The first argument counts
  the attempts that are left, the second is \<open>lastErr\<close>.  After every failed attempt
  the loop stores the error and sleeps; it does not look at the kind of error.  With no
  iteration at all (\<open>tryCount \<le> 0\<close>) the function returns \<open>nil, nil\<close>: no data and no
  error.
\<close>

fun Get_loop :: "nat \<Rightarrow> fetch_error option \<Rightarrow> HTTPClient \<Rightarrow> string \<Rightarrow> http_state
    \<Rightarrow> (fetch_error + string) \<times> http_state" where
  "Get_loop 0 lastErr h uri s =
     (case lastErr of None \<Rightarrow> (Inr [], s) | Some e \<Rightarrow> (Inl e, s))"
| "Get_loop (Suc n) lastErr h uri s =
     (case get h uri s of
        (Inr data, s') \<Rightarrow> (Inr data, s')
      | (Inl err, s') \<Rightarrow> Get_loop n (Some err) h uri (s'\<lparr>sleeps := sleeps s' + 1\<rparr>))"

definition Get :: "HTTPClient \<Rightarrow> string \<Rightarrow> http_state \<Rightarrow> (fetch_error + string) \<times> http_state" where
  "Get h uri s = Get_loop (nat (tryCount h)) None h uri s"

definition always404 :: HTTPClient where
  "always404 = \<lparr>tryCount = defaultRetryCount, network = (\<lambda>_ _. Response 404 None)\<rparr>"

definition fresh :: http_state where
  "fresh = \<lparr>requests = [], sleeps = 0\<rparr>"

section \<open>Strings\<close>

text \<open>\<open>%d\<close> of \<open>fmt.Sprintf\<close> on an unsigned number: its decimal digits.\<close>

definition digit_char :: "nat \<Rightarrow> char" where
  "digit_char d = char_of (48 + d)"

fun dec :: "nat \<Rightarrow> string" where
  "dec n = (if n < 10 then [digit_char n] else dec (n div 10) @ [digit_char (n mod 10)])"

declare dec.simps [simp del]

text \<open>\<open>strings.Split(s, sep)\<close> for a separator of one character.\<close>

fun Split :: "char \<Rightarrow> string \<Rightarrow> string list" where
  "Split sep [] = [[]]"
| "Split sep (c # cs) =
     (if c = sep then [] # Split sep cs
      else (case Split sep cs of [] \<Rightarrow> [[c]] | p # ps \<Rightarrow> (c # p) # ps))"

definition HasPrefix :: "string \<Rightarrow> string \<Rightarrow> bool" where
  "HasPrefix s pre = prefix pre s"



text \<open>
  \<open>strconv.ParseUint(s, 10, 64)\<close>: decimal digits only, at least one, and a value
  below \<open>2 ^ 64\<close>; \<open>None\<close> stands for the error.
\<close>

definition is_digit :: "char \<Rightarrow> bool" where
  "is_digit c = (48 \<le> (of_char c :: nat) \<and> (of_char c :: nat) \<le> 57)"



section \<open>The file system and the archive marker\<close>

text \<open>
  A path is the list of the components of its cleaned, absolute form; \<open>[]\<close> is the
  root.  A node is a directory or a file with its bytes and a flag telling whether the
  bytes were fsynced.  The file system is an association list from paths to nodes.
\<close>

type_synonym path = "string list"

datatype node = Dir | File (content: string) (synced: bool)

type_synonym filesys = "(path \<times> node) list"

definition is_dir :: "filesys \<Rightarrow> path \<Rightarrow> bool" where
  "is_dir f p = (p = [] \<or> map_of f p = Some Dir)"

text \<open>The names of the entries of a directory, as \<open>Readdirnames\<close> lists them.\<close>

definition dir_names :: "filesys \<Rightarrow> path \<Rightarrow> string list" where
  "dir_names f d = map last (filter (\<lambda>p. p \<noteq> [] \<and> butlast p = d) (map fst f))"

text \<open>
  \<open>filepath.Match\<close> for patterns made of \<open>*\<close>, \<open>?\<close> and literal characters (the
  marker pattern has one \<open>*\<close> and literal characters only): \<open>*\<close> matches any
  sequence of characters other than the separator, \<open>?\<close> one such character.
\<close>

fun Match :: "string \<Rightarrow> string \<Rightarrow> bool" where
  "Match [] [] = True"
| "Match [] (c # cs) = False"
| "Match (p # ps) [] = (p = CHR ''*'' \<and> Match ps [])"
| "Match (p # ps) (c # cs) =
     (if p = CHR ''*'' then Match ps (c # cs) \<or> (c \<noteq> CHR ''/'' \<and> Match (p # ps) cs)
      else if p = CHR ''?'' then c \<noteq> CHR ''/'' \<and> Match ps cs
      else p = c \<and> Match ps cs)"

record Submission =
  id_num :: nat
  submissionDir :: path


text \<open>
  \<open>Submission.IsSaved\<close>: \<open>filepath.Glob\<close> of \<open>*.<id>.html\<close> in the submission
  directory; a directory that does not exist has no match.
\<close>

definition filenameGlob :: "nat \<Rightarrow> string" where
  "filenameGlob i = ''*.'' @ dec i @ ''.html''"

definition IsSaved :: "filesys \<Rightarrow> Submission \<Rightarrow> bool" where
  "IsSaved f s =
     (is_dir f (submissionDir s)
      \<and> list_ex (Match (filenameGlob (id_num s))) (dir_names f (submissionDir s)))"

section \<open>The client interface and the world\<close>

text \<open>
  A fetched document: its bytes, and what the two goquery selections of the program find
  in it.  \<open>view_links\<close> are the \<open>href\<close> values of the elements selected by
  \<open>a[href^='/view/']:has(img)\<close>, in document order; \<open>anchors\<close> are all \<open>a\<close>
  elements, each with its text and its \<open>href\<close> attribute if it has one.
\<close>

record page =
  raw :: string
  view_links :: "string list"
  anchors :: "(string \<times> string option) list"

datatype call = CallGet string | CallGetWithDelay string

text \<open>
  The world a run acts on: the file system, the answers of the \<open>Client\<close> for its two
  methods, the calls made so far, and a budget of file system steps after which the
  process is killed (\<open>None\<close>: it is never killed).
\<close>

record world =
  fs :: filesys
  get_response :: "string \<Rightarrow> fetch_error + page"
  delay_response :: "string \<Rightarrow> fetch_error + page"
  calls :: "call list"
  budget :: "nat option"

definition client_Get :: "string \<Rightarrow> world \<Rightarrow> (fetch_error + page) \<times> world" where
  "client_Get uri w = (get_response w uri, w\<lparr>calls := calls w @ [CallGet uri]\<rparr>)"

definition client_GetWithDelay :: "string \<Rightarrow> world \<Rightarrow> (fetch_error + page) \<times> world" where
  "client_GetWithDelay uri w =
     (delay_response w uri, w\<lparr>calls := calls w @ [CallGetWithDelay uri]\<rparr>)"

datatype fs_error = InvalidFilePath | IsADirectory | NoSuchDirectory | NotADirectory | NoSuchFile

datatype error =
    FetchWatchlistPage fetch_error
  | FetchGalleryPage fetch_error
  | CreateTargetDirectory fs_error
  | GetSubmissionPage fetch_error
  | SubmissionImageNotFound
  | UnexpectedLinkFormat string
  | DownloadFile fetch_error
  | SaveFile fs_error
  | SaveHTMLPage fs_error
  | FinalizeHTMLPage fs_error

datatype panic = MaxWatchlistPagesExceeded | MaxGalleryPagesExceeded | BadSubmissionId string

datatype 'a outcome = Ok 'a | Err error | Panic panic | Killed

section \<open>The follow-list crawler\<close>

definition maxWatchlistPages :: nat where "maxWatchlistPages = 100"
definition minNewUsernamesThreshold :: nat where "minNewUsernamesThreshold = 2"

text \<open>
  \<open>watchlistUserRegex.FindAllSubmatch(body, -1)\<close> for \<open>/user/([^/]+)/\<close>: the captured
  names of the successive non-overlapping matches, leftmost first.  At a position where
  \<open>/user/\<close> starts, the name is the longest run of characters other than \<open>/\<close>; it must
  not be empty and a \<open>/\<close> must follow it.  The search goes on behind the match.
\<close>

definition not_slash :: "char \<Rightarrow> bool" where
  "not_slash c = (c \<noteq> CHR ''/'')"

function watchlist_matches :: "string \<Rightarrow> string list" where
  "watchlist_matches [] = []"
| "watchlist_matches (c # cs) =
     (if prefix ''/user/'' (c # cs)
         \<and> takeWhile not_slash (drop 6 (c # cs)) \<noteq> []
         \<and> dropWhile not_slash (drop 6 (c # cs)) \<noteq> []
      then takeWhile not_slash (drop 6 (c # cs))
             # watchlist_matches (tl (dropWhile not_slash (drop 6 (c # cs))))
      else watchlist_matches cs)"
  by pat_completeness auto
termination
proof (relation "measure length")
  fix c :: char and cs :: string
  have "length (dropWhile not_slash (drop 6 (c # cs))) \<le> length (drop 6 (c # cs))"
    by (rule length_dropWhile_le)
  then show "(tl (dropWhile not_slash (drop 6 (c # cs))), c # cs) \<in> measure length"
    by simp
qed simp_all

text \<open>
  The inner loop of \<open>GetWatchlist\<close> over the matches of one page: \<open>seen\<close>, the list
  \<open>usernames\<close> and the counter \<open>newUsernames\<close>.
\<close>

fun add_usernames :: "string list \<Rightarrow> string set \<times> string list \<times> nat
    \<Rightarrow> string set \<times> string list \<times> nat" where
  "add_usernames [] st = st"
| "add_usernames (u # us) (seen, usernames, newUsernames) =
     (if u \<notin> seen then add_usernames us (insert u seen, usernames @ [u], newUsernames + 1)
      else add_usernames us (seen, usernames, newUsernames))"

definition watchlist_url :: "string \<Rightarrow> nat \<Rightarrow> string" where
  "watchlist_url username pageNum =
     ''https://www.furaffinity.net/watchlist/by/'' @ username @ ''/'' @ dec pageNum"

text \<open>The loop of \<open>GetWatchlist\<close> from page \<open>pageNum\<close> on.\<close>

function GetWatchlist_loop :: "nat \<Rightarrow> string set \<Rightarrow> string list \<Rightarrow> string \<Rightarrow> world
    \<Rightarrow> string list outcome \<times> world" where
  "GetWatchlist_loop pageNum seen usernames username w =
     (if pageNum > maxWatchlistPages then (Panic MaxWatchlistPagesExceeded, w)
      else (case client_Get (watchlist_url username pageNum) w of
              (Inl err, w') \<Rightarrow> (Err (FetchWatchlistPage err), w')
            | (Inr body, w') \<Rightarrow>
                (case add_usernames (watchlist_matches (raw body)) (seen, usernames, 0) of
                   (seen', usernames', newUsernames) \<Rightarrow>
                     if newUsernames < minNewUsernamesThreshold then (Ok usernames', w')
                     else GetWatchlist_loop (pageNum + 1) seen' usernames' username w')))"
  by pat_completeness auto
termination
  by (relation "measure (\<lambda>(pageNum, seen, usernames, username, w). maxWatchlistPages + 1 - pageNum)")
     auto

declare GetWatchlist_loop.simps [simp del]

definition GetWatchlist :: "string \<Rightarrow> world \<Rightarrow> string list outcome \<times> world" where
  "GetWatchlist username w = GetWatchlist_loop 1 {} [] username w"

section \<open>The gallery crawler\<close>

record Artist =
  username :: string
  artistDir :: path









section \<open>What the crawlers are specified to compute\<close>

text \<open>
  The list without its repetitions, every element at its first place: the globally
  deduplicated ids in first-seen order.
\<close>

fun first_seen :: "'a list \<Rightarrow> 'a list" where
  "first_seen [] = []"
| "first_seen (x # xs) = x # first_seen (filter (\<lambda>y. y \<noteq> x) xs)"

definition page_names :: "(string \<Rightarrow> fetch_error + page) \<Rightarrow> string \<Rightarrow> nat \<Rightarrow> string list" where
  "page_names g u k =
     (case g (watchlist_url u k) of Inl e \<Rightarrow> [] | Inr b \<Rightarrow> watchlist_matches (raw b))"

definition names_before :: "(string \<Rightarrow> fetch_error + page) \<Rightarrow> string \<Rightarrow> nat \<Rightarrow> string list" where
  "names_before g u k = concat (map (page_names g u) [1..<k])"

definition new_on_page :: "(string \<Rightarrow> fetch_error + page) \<Rightarrow> string \<Rightarrow> nat \<Rightarrow> nat" where
  "new_on_page g u k = card (set (page_names g u k) - set (names_before g u k))"

definition watchlist_calls :: "string \<Rightarrow> nat \<Rightarrow> nat \<Rightarrow> call list" where
  "watchlist_calls u j m = map (\<lambda>k. CallGet (watchlist_url u k)) [j..<m]"

definition watchlist_grows :: "(string \<Rightarrow> fetch_error + page) \<Rightarrow> string \<Rightarrow> nat \<Rightarrow> bool" where
  "watchlist_grows g u k =
     (\<not> isl (g (watchlist_url u k)) \<and> minNewUsernamesThreshold \<le> new_on_page g u k)"






section \<open>Concrete sites and worlds\<close>


definition text_page :: "string \<Rightarrow> page" where
  "text_page bytes = \<lparr>raw = bytes, view_links = [], anchors = []\<rparr>"




text \<open>
  A watchlist whose second page repeats the first and adds one name; its third page is
  full of new names.
\<close>

definition repeating_watchlist :: "string \<Rightarrow> fetch_error + page" where
  "repeating_watchlist uri =
     (if uri = ''https://www.furaffinity.net/watchlist/by/test-watcher/1''
        then Inr (text_page ''<a href=\"/user/lorem/\">lorem</a> <a href=\"/user/ipsum/\">ipsum</a>'')
      else if uri = ''https://www.furaffinity.net/watchlist/by/test-watcher/2''
        then Inr (text_page ''<a href=\"/user/lorem/\">lorem</a> <a href=\"/user/ipsum/\">ipsum</a> <a href=\"/user/dolor/\">dolor</a>'')
      else if uri = ''https://www.furaffinity.net/watchlist/by/test-watcher/3''
        then Inr (text_page ''<a href=\"/user/sit/\">sit</a> <a href=\"/user/amet/\">amet</a> <a href=\"/user/anim/\">anim</a>'')
      else Inl notFound)"

definition repeating_world :: world where
  "repeating_world =
     \<lparr>fs = [], get_response = repeating_watchlist, delay_response = repeating_watchlist,
      calls = [], budget = None\<rparr>"


section \<open>Cookie loading\<close>



text \<open>
  \<open>strings.TrimSpace\<close> and \<open>strings.ToUpper\<close> on the bytes of the string: the white
  space and the letters of ASCII.  (The Go functions also know the white space and the
  letters beyond ASCII; no such character is white space as a single byte, and none has
  an ASCII letter of \<open>TRUE\<close> as its upper case.)
\<close>

definition is_space :: "char \<Rightarrow> bool" where
  "is_space c = (c \<in> {CHR 0x09, CHR 0x0A, CHR 0x0B, CHR 0x0C, CHR 0x0D, CHR '' ''})"

definition TrimSpace :: "string \<Rightarrow> string" where
  "TrimSpace s = rev (dropWhile is_space (rev (dropWhile is_space s)))"

























section \<open>File system operations\<close>

definition fs_put :: "path \<Rightarrow> node \<Rightarrow> filesys \<Rightarrow> filesys" where
  "fs_put p n f = (p, n) # filter (\<lambda>e. fst e \<noteq> p) f"

definition fs_remove :: "path \<Rightarrow> filesys \<Rightarrow> filesys" where
  "fs_remove p f = filter (\<lambda>e. fst e \<noteq> p) f"

text \<open>The file at a path, if there is one: its bytes and whether they are synced.\<close>

definition file_at :: "filesys \<Rightarrow> path \<Rightarrow> (string \<times> bool) option" where
  "file_at f p = (case map_of f p of Some (File c b) \<Rightarrow> Some (c, b) | _ \<Rightarrow> None)"

datatype fs_result = Done | Failed fs_error | Interrupted

text \<open>
  Every system call that changes the file system takes one step of the budget; when the
  budget is used up the process is dead and the call is not made.
\<close>

definition tick :: "world \<Rightarrow> world option" where
  "tick w =
     (case budget w of
        None \<Rightarrow> Some w
      | Some 0 \<Rightarrow> None
      | Some (Suc n) \<Rightarrow> Some (w\<lparr>budget := Some n\<rparr>))"

text \<open>\<open>os.Create\<close>: creates the file or truncates it.\<close>

definition os_Create :: "path \<Rightarrow> world \<Rightarrow> fs_result \<times> world" where
  "os_Create p w =
     (case tick w of
        None \<Rightarrow> (Interrupted, w)
      | Some w' \<Rightarrow>
          if is_dir (fs w') p then (Failed IsADirectory, w')
          else if \<not> is_dir (fs w') (butlast p) then (Failed NoSuchDirectory, w')
          else (Done, w'\<lparr>fs := fs_put p (File [] False) (fs w')\<rparr>))"

text \<open>
  \<open>fh.Write\<close>: the bytes reach the file one after the other, so that a process killed
  in the middle leaves a part of them.
\<close>

definition append_byte :: "path \<Rightarrow> char \<Rightarrow> filesys \<Rightarrow> filesys" where
  "append_byte p b f =
     (case map_of f p of
        Some (File c s) \<Rightarrow> fs_put p (File (c @ [b]) False) f
      | _ \<Rightarrow> f)"

fun os_Write :: "path \<Rightarrow> string \<Rightarrow> world \<Rightarrow> fs_result \<times> world" where
  "os_Write p [] w = (Done, w)"
| "os_Write p (b # bs) w =
     (case tick w of
        None \<Rightarrow> (Interrupted, w)
      | Some w' \<Rightarrow> os_Write p bs (w'\<lparr>fs := append_byte p b (fs w')\<rparr>))"

definition mark_synced :: "path \<Rightarrow> filesys \<Rightarrow> filesys" where
  "mark_synced p f =
     (case map_of f p of
        Some (File c s) \<Rightarrow> fs_put p (File c True) f
      | _ \<Rightarrow> f)"

definition os_Sync :: "path \<Rightarrow> world \<Rightarrow> fs_result \<times> world" where
  "os_Sync p w =
     (case tick w of
        None \<Rightarrow> (Interrupted, w)
      | Some w' \<Rightarrow> (Done, w'\<lparr>fs := mark_synced p (fs w')\<rparr>))"

text \<open>
  \<open>os.Rename\<close> of a file: one step that removes the old name and gives the new name
  the file, replacing a file that has this name.  (The program renames only the file it
  has just written; the renaming of a directory is not modelled and counts as failed.)
\<close>

definition os_Rename :: "path \<Rightarrow> path \<Rightarrow> world \<Rightarrow> fs_result \<times> world" where
  "os_Rename old new w =
     (case tick w of
        None \<Rightarrow> (Interrupted, w)
      | Some w' \<Rightarrow>
          (case map_of (fs w') old of
             None \<Rightarrow> (Failed NoSuchFile, w')
           | Some Dir \<Rightarrow> (Failed IsADirectory, w')
           | Some (File c s) \<Rightarrow>
               if is_dir (fs w') new then (Failed IsADirectory, w')
               else if \<not> is_dir (fs w') (butlast new) then (Failed NoSuchDirectory, w')
               else (Done, w'\<lparr>fs := fs_put new (File c s) (fs_remove old (fs w'))\<rparr>)))"

definition os_Mkdir :: "path \<Rightarrow> world \<Rightarrow> fs_result \<times> world" where
  "os_Mkdir p w =
     (case tick w of
        None \<Rightarrow> (Interrupted, w)
      | Some w' \<Rightarrow>
          if is_dir (fs w') p then (Done, w')
          else if map_of (fs w') p \<noteq> None then (Failed NotADirectory, w')
          else if \<not> is_dir (fs w') (butlast p) then (Failed NoSuchDirectory, w')
          else (Done, w'\<lparr>fs := fs_put p Dir (fs w')\<rparr>))"

text \<open>\<open>os.MkdirAll\<close>: nothing to do for a directory, else the parent first.\<close>

function MkdirAll :: "path \<Rightarrow> world \<Rightarrow> fs_result \<times> world" where
  "MkdirAll p w =
     (if is_dir (fs w) p then (Done, w)
      else if map_of (fs w) p \<noteq> None then (Failed NotADirectory, w)
      else (case MkdirAll (butlast p) w of
              (Done, w') \<Rightarrow> os_Mkdir p w'
            | (r, w') \<Rightarrow> (r, w')))"
  by pat_completeness auto
termination
  by (relation "measure (\<lambda>(p, w). length p)") (auto simp: is_dir_def)

declare MkdirAll.simps [simp del]

section \<open>Paths\<close>

text \<open>
  \<open>filepath.Join(dir, name)\<close> for a directory in cleaned form: the components of the
  name are taken one after the other; an empty one and \<open>.\<close> change nothing, \<open>..\<close>
  goes up one level (not above the root), any other one goes down.
  \<open>filepath.Clean\<close> does the same with all the components of a path.
\<close>

definition join_step :: "path \<Rightarrow> string \<Rightarrow> path" where
  "join_step p c =
     (if c = [] \<or> c = ''.'' then p else if c = ''..'' then butlast p else p @ [c])"

definition Join :: "path \<Rightarrow> string \<Rightarrow> path" where
  "Join dir name = foldl join_step dir (Split (CHR ''/'') name)"

definition Clean :: "path \<Rightarrow> path" where
  "Clean p = foldl join_step [] p"

text \<open>\<open>path + suffix\<close> on the path string: the suffix goes to the last component.\<close>

definition path_append :: "path \<Rightarrow> string \<Rightarrow> path" where
  "path_append p suf = (if p = [] then [suf] else butlast p @ [last p @ suf])"

section \<open>Saving a submission\<close>

definition WriteAndFsyncFile :: "path \<Rightarrow> string \<Rightarrow> world \<Rightarrow> fs_result \<times> world" where
  "WriteAndFsyncFile filePath bytes w =
     (if filePath \<noteq> Clean filePath then (Failed InvalidFilePath, w)
      else (case os_Create filePath w of
              (Done, w1) \<Rightarrow>
                (case os_Write filePath bytes w1 of
                   (Done, w2) \<Rightarrow> os_Sync filePath w2
                 | (r, w2) \<Rightarrow> (r, w2))
            | (r, w1) \<Rightarrow> (r, w1)))"

text \<open>
  The loop of \<open>parseURLAndFilenameFromViewPage\<close> over the \<open>a\<close> elements: the first one
  whose trimmed text is \<open>Download\<close> and which has an \<open>href\<close>.
\<close>

fun find_download :: "(string \<times> string option) list \<Rightarrow> string option" where
  "find_download [] = None"
| "find_download ((txt, href) # rest) =
     (if TrimSpace txt = ''Download''
      then (case href of Some foundHref \<Rightarrow> Some foundHref | None \<Rightarrow> find_download rest)
      else find_download rest)"

text \<open>The replacer: each of the eight characters becomes an underscore.\<close>

definition replacer :: "char \<Rightarrow> char" where
  "replacer c =
     (if c \<in> {CHR ''<'', CHR ''>'', CHR '':'', CHR 0x22, CHR 0x5C, CHR ''|'', CHR ''?'', CHR ''*''}
      then CHR ''_'' else c)"

definition parseURLAndFilenameFromViewPage :: "page \<Rightarrow> error + (string \<times> string)" where
  "parseURLAndFilenameFromViewPage pageContent =
     (case find_download (anchors pageContent) of
        None \<Rightarrow> Inl SubmissionImageNotFound
      | Some href \<Rightarrow>
          if \<not> HasPrefix href ''//'' then Inl (UnexpectedLinkFormat href)
          else let downloadURL = ''https:'' @ href;
                   urlParts = Split (CHR ''/'') downloadURL;
                   filename = last urlParts
               in Inr (downloadURL, map replacer filename))"

definition htmlFilename :: "string \<Rightarrow> nat \<Rightarrow> string" where
  "htmlFilename filename i = filename @ ''.'' @ dec i @ ''.html''"

definition saveSubmissionFiles :: "Submission \<Rightarrow> string \<Rightarrow> string \<Rightarrow> string \<Rightarrow> world
    \<Rightarrow> unit outcome \<times> world" where
  "saveSubmissionFiles s filename fileContent pageContent w =
     (let filePath = Join (submissionDir s) filename in
      case WriteAndFsyncFile filePath fileContent w of
        (Failed e, w1) \<Rightarrow> (Err (SaveFile e), w1)
      | (Interrupted, w1) \<Rightarrow> (Killed, w1)
      | (Done, w1) \<Rightarrow>
          (let htmlPath = Join (submissionDir s) (htmlFilename filename (id_num s));
               htmlTempfile = path_append htmlPath ''.tmp''
           in case WriteAndFsyncFile htmlTempfile pageContent w1 of
                (Failed e, w2) \<Rightarrow> (Err (SaveHTMLPage e), w2)
              | (Interrupted, w2) \<Rightarrow> (Killed, w2)
              | (Done, w2) \<Rightarrow>
                  (case os_Rename htmlTempfile htmlPath w2 of
                     (Failed e, w3) \<Rightarrow> (Err (FinalizeHTMLPage e), w3)
                   | (Interrupted, w3) \<Rightarrow> (Killed, w3)
                   | (Done, w3) \<Rightarrow> (Ok (), w3))))"

definition view_url :: "nat \<Rightarrow> string" where
  "view_url i = ''https://www.furaffinity.net/view/'' @ dec i"

definition Save :: "Submission \<Rightarrow> world \<Rightarrow> unit outcome \<times> world" where
  "Save s w =
     (if IsSaved (fs w) s then (Ok (), w)
      else case MkdirAll (submissionDir s) w of
        (Failed e, w1) \<Rightarrow> (Err (CreateTargetDirectory e), w1)
      | (Interrupted, w1) \<Rightarrow> (Killed, w1)
      | (Done, w1) \<Rightarrow>
          (case client_GetWithDelay (view_url (id_num s)) w1 of
             (Inl err, w2) \<Rightarrow> (Err (GetSubmissionPage err), w2)
           | (Inr pageContent, w2) \<Rightarrow>
               (case parseURLAndFilenameFromViewPage pageContent of
                  Inl err \<Rightarrow> (Err err, w2)
                | Inr (downloadURL, filename) \<Rightarrow>
                    (case client_Get downloadURL w2 of
                       (Inl err, w3) \<Rightarrow>
                         if err = notFound then (Ok (), w3) else (Err (DownloadFile err), w3)
                     | (Inr fileContent, w3) \<Rightarrow>
                         saveSubmissionFiles s filename (raw fileContent) (raw pageContent) w3))))"
section \<open>Notions for the properties of saving\<close>

text \<open>
  \<open>literal\<close>: a pattern without wildcard.  \<open>parents_ok\<close>: every entry of the file
  system lies in a directory.  \<open>plain_name\<close>: a name that \<open>filepath.Join\<close> appends as
  it is.  \<open>forbidden\<close>: the characters the replacer removes.  \<open>same_net\<close>: two worlds
  with the same site and the same calls.
\<close>

definition literal :: "string \<Rightarrow> bool" where
  "literal ps = (\<forall>c\<in>set ps. c \<noteq> CHR ''*'' \<and> c \<noteq> CHR ''?'')"

definition parents_ok :: "filesys \<Rightarrow> bool" where
  "parents_ok f = (\<forall>q. map_of f q \<noteq> None \<longrightarrow> is_dir f (butlast q))"

definition plain_name :: "string \<Rightarrow> bool" where
  "plain_name n = (CHR ''/'' \<notin> set n \<and> n \<noteq> [] \<and> n \<noteq> ''.'' \<and> n \<noteq> ''..'')"

definition forbidden :: "char set" where
  "forbidden = {CHR ''<'', CHR ''>'', CHR '':'', CHR 0x22, CHR 0x5C, CHR ''|'', CHR ''?'', CHR ''*''}"

definition same_net :: "world \<Rightarrow> world \<Rightarrow> bool" where
  "same_net w w' =
     (calls w' = calls w \<and> get_response w' = get_response w
      \<and> delay_response w' = delay_response w)"

section \<open>Properties of the transport\<close>

lemma Get_loop_all_fail:
  "\<forall>k<n. \<exists>e. classify (network h (length (requests s) + k) uri) = Inl e \<Longrightarrow>
   Get_loop n lastErr h uri s =
     ((if n = 0 then (case lastErr of None \<Rightarrow> Inr [] | Some e \<Rightarrow> Inl e)
       else classify (network h (length (requests s) + (n - 1)) uri)),
      s\<lparr>requests := requests s @ replicate n uri, sleeps := sleeps s + n\<rparr>)"
proof (induction n arbitrary: lastErr s)
  case 0
  then show ?case by (simp split: option.splits)
next
  case (Suc n)
  from Suc.prems obtain e where e: "classify (network h (length (requests s)) uri) = Inl e"
    by force
  let ?s' = "s\<lparr>requests := requests s @ [uri], sleeps := sleeps s + 1\<rparr>"
  have later: "\<forall>k<n. \<exists>e. classify (network h (length (requests ?s') + k) uri) = Inl e"
  proof (intro allI impI)
    fix k assume "k < n"
    then have "Suc k < Suc n" by simp
    with Suc.prems obtain e' where
      "classify (network h (length (requests s) + Suc k) uri) = Inl e'" by blast
    then show "\<exists>e. classify (network h (length (requests ?s') + k) uri) = Inl e" by simp
  qed
  have step: "Get_loop (Suc n) lastErr h uri s = Get_loop n (Some e) h uri ?s'"
    by (simp add: get_def e)
  show ?case
  proof (cases n)
    case 0
    then show ?thesis unfolding step by (simp add: e)
  next
    case (Suc m)
    then show ?thesis
      unfolding step Suc.IH [OF later]
      by (simp add: replicate_app_Cons_same)
  qed
qed

text \<open>
  C1 (as the code has it).  \<open>Get\<close> treats every error class alike.  When each of the
  \<open>tryCount\<close> underlying requests fails, whatever the class, \<open>Get\<close> sends all
  \<open>tryCount\<close> requests, sleeps after each of them and returns the error of the last
  one.  In particular a URL that answers 404 every time is requested \<open>tryCount\<close> times
  before \<open>notFound\<close> is returned.
\<close>

theorem Get_retries_every_error:
  assumes "0 < tryCount h"
    and "\<forall>k < nat (tryCount h). \<exists>e. classify (network h (length (requests s) + k) uri) = Inl e"
  shows "Get h uri s =
     (classify (network h (length (requests s) + (nat (tryCount h) - 1)) uri),
      s\<lparr>requests := requests s @ replicate (nat (tryCount h)) uri,
        sleeps := sleeps s + nat (tryCount h)\<rparr>)"
  using assms(1) Get_loop_all_fail [OF assms(2), of None] by (simp add: Get_def)

theorem Get_retries_every_error_witness:
  "Get always404 ''https://www.furaffinity.net/view/0'' fresh =
     (Inl notFound,
      \<lparr>requests = replicate 3 ''https://www.furaffinity.net/view/0'', sleeps = 3\<rparr>)"
  using Get_retries_every_error [of always404 fresh "''https://www.furaffinity.net/view/0''"]
  by (simp add: always404_def fresh_def defaultRetryCount_def classify_def StatusNotFound_def)

text \<open>
  C1 (as the claim states it) fails: the first underlying request yields \<open>notFound\<close>,
  yet \<open>Get\<close> goes on and sends three requests in all.
\<close>

theorem Get_notFound_is_retried:
  "fst (get always404 ''https://www.furaffinity.net/view/0'' fresh) = Inl notFound
   \<and> requests (snd (Get always404 ''https://www.furaffinity.net/view/0'' fresh))
       = [''https://www.furaffinity.net/view/0'', ''https://www.furaffinity.net/view/0'',
          ''https://www.furaffinity.net/view/0'']
   \<and> sleeps (snd (Get always404 ''https://www.furaffinity.net/view/0'' fresh)) = 3"
  by (simp add: Get_def get_def always404_def fresh_def defaultRetryCount_def classify_def
      StatusNotFound_def eval_nat_numeral)
section \<open>Properties of the crawlers\<close>

lemma set_first_seen [simp]: "set (first_seen xs) = set xs"
  by (induction xs rule: first_seen.induct) auto

lemma distinct_first_seen [simp]: "distinct (first_seen xs)"
  by (induction xs rule: first_seen.induct) auto

lemma first_seen_filter: "first_seen (filter P xs) = filter P (first_seen xs)"
proof (induction xs rule: first_seen.induct)
  case 1
  then show ?case by simp
next
  case (2 x xs)
  show ?case
  proof (cases "P x")
    case True
    then show ?thesis using 2 by (simp add: conj_commute)
  next
    case False
    then have "filter P xs = filter P (filter (\<lambda>y. y \<noteq> x) xs)"
      by (induction xs) auto
    then show ?thesis using 2 False by (simp add: conj_commute)
  qed
qed

lemma first_seen_append:
  "first_seen (xs @ ys) = first_seen xs @ first_seen (filter (\<lambda>y. y \<notin> set xs) ys)"
proof (induction xs arbitrary: ys rule: first_seen.induct)
  case 1
  then show ?case by simp
next
  case (2 x xs)
  have "first_seen ((x # xs) @ ys) = x # first_seen (filter (\<lambda>y. y \<noteq> x) xs @ filter (\<lambda>y. y \<noteq> x) ys)"
    by simp
  also have "\<dots> = x # first_seen (filter (\<lambda>y. y \<noteq> x) xs)
      @ first_seen (filter (\<lambda>y. y \<notin> set (filter (\<lambda>y. y \<noteq> x) xs)) (filter (\<lambda>y. y \<noteq> x) ys))"
    using 2 by simp
  also have "filter (\<lambda>y. y \<notin> set (filter (\<lambda>y. y \<noteq> x) xs)) (filter (\<lambda>y. y \<noteq> x) ys)
      = filter (\<lambda>y. y \<notin> set (x # xs)) ys"
    by (induction ys) auto
  finally show ?case by simp
qed

lemma remdups_snoc: "remdups (ys @ [x]) = filter (\<lambda>y. y \<noteq> x) (remdups ys) @ [x]"
  by (induction ys) auto

lemma first_seen_rev_remdups: "first_seen xs = rev (remdups (rev xs))"
proof (induction xs rule: first_seen.induct)
  case 1
  then show ?case by simp
next
  case (2 x xs)
  then show ?case
    by (simp add: remdups_snoc remdups_filter rev_filter)
qed

lemma add_usernames_eq:
  "add_usernames ms (set us, us, n) =
     (set us \<union> set ms, us @ first_seen (filter (\<lambda>m. m \<notin> set us) ms),
      n + length (first_seen (filter (\<lambda>m. m \<notin> set us) ms)))"
proof (induction ms arbitrary: us n)
  case Nil
  then show ?case by simp
next
  case (Cons m ms)
  show ?case
  proof (cases "m \<in> set us")
    case True
    then show ?thesis using Cons [of us n] by (simp add: insert_absorb)
  next
    case False
    have f: "filter (\<lambda>y. y \<noteq> m) (filter (\<lambda>m. m \<notin> set us) ms) = filter (\<lambda>x. x \<notin> set (us @ [m])) ms"
      by (induction ms) auto
    from False show ?thesis using Cons [of "us @ [m]" "n + 1"] by (simp add: conj_commute)
  qed
qed


lemma names_before_Suc:
  "1 \<le> j \<Longrightarrow> names_before g u (Suc j) = names_before g u j @ page_names g u j"
  by (simp add: names_before_def)

lemma length_first_seen_new:
  "length (first_seen (filter (\<lambda>m. m \<notin> set xs) ms)) = card (set ms - set xs)"
proof -
  have "length (first_seen (filter (\<lambda>m. m \<notin> set xs) ms))
      = card (set (first_seen (filter (\<lambda>m. m \<notin> set xs) ms)))"
    using distinct_card [OF distinct_first_seen, of "filter (\<lambda>m. m \<notin> set xs) ms"] by simp
  also have "set (first_seen (filter (\<lambda>m. m \<notin> set xs) ms)) = set ms - set xs"
    by auto
  finally show ?thesis .
qed

lemma GetWatchlist_loop_page:
  assumes "1 \<le> j" and "j \<le> maxWatchlistPages"
    and "\<not> isl (get_response w (watchlist_url u j))"
  shows "GetWatchlist_loop j (set (names_before (get_response w) u j))
           (first_seen (names_before (get_response w) u j)) u w =
         (if new_on_page (get_response w) u j < minNewUsernamesThreshold
          then (Ok (first_seen (names_before (get_response w) u (Suc j))),
                w\<lparr>calls := calls w @ [CallGet (watchlist_url u j)]\<rparr>)
          else GetWatchlist_loop (Suc j) (set (names_before (get_response w) u (Suc j)))
                 (first_seen (names_before (get_response w) u (Suc j))) u
                 (w\<lparr>calls := calls w @ [CallGet (watchlist_url u j)]\<rparr>))"
proof -
  let ?g = "get_response w"
  let ?acc = "first_seen (names_before ?g u j)"
  from assms(3) obtain b where b: "?g (watchlist_url u j) = Inr b"
    by (cases "?g (watchlist_url u j)") auto
  have pn: "page_names ?g u j = watchlist_matches (raw b)"
    by (simp add: page_names_def b)
  have add: "add_usernames (watchlist_matches (raw b)) (set (names_before ?g u j), ?acc, 0) =
      (set (names_before ?g u (Suc j)), first_seen (names_before ?g u (Suc j)),
       new_on_page ?g u j)"
    using add_usernames_eq [of "watchlist_matches (raw b)" ?acc 0] assms(1)
    by (simp add: names_before_Suc first_seen_append pn length_first_seen_new new_on_page_def)
  show ?thesis
    using assms(2)
    by (subst GetWatchlist_loop.simps) (simp add: client_Get_def b add)
qed

lemma GetWatchlist_loop_run:
  assumes "1 \<le> j" and "j \<le> m" and "m \<le> Suc maxWatchlistPages"
    and "\<forall>k. j \<le> k \<and> k < m \<longrightarrow> \<not> isl (get_response w (watchlist_url u k))
           \<and> minNewUsernamesThreshold \<le> new_on_page (get_response w) u k"
  shows "GetWatchlist_loop j (set (names_before (get_response w) u j))
           (first_seen (names_before (get_response w) u j)) u w =
         GetWatchlist_loop m (set (names_before (get_response w) u m))
           (first_seen (names_before (get_response w) u m)) u
           (w\<lparr>calls := calls w @ watchlist_calls u j m\<rparr>)"
  using assms(2,3,4)
proof (induction m rule: dec_induct)
  case base
  then show ?case by (simp add: watchlist_calls_def)
next
  case (step n)
  let ?w = "w\<lparr>calls := calls w @ watchlist_calls u j n\<rparr>"
  have g: "get_response ?w = get_response w" by simp
  have n: "1 \<le> n" "n \<le> maxWatchlistPages" using assms(1) step by auto
  have ok: "\<not> isl (get_response ?w (watchlist_url u n))"
    and grow: "minNewUsernamesThreshold \<le> new_on_page (get_response w) u n"
    using step by auto
  have calls: "watchlist_calls u j n @ [CallGet (watchlist_url u n)] = watchlist_calls u j (Suc n)"
    using step(1) by (simp add: watchlist_calls_def)
  have "GetWatchlist_loop j (set (names_before (get_response w) u j))
           (first_seen (names_before (get_response w) u j)) u w =
        GetWatchlist_loop n (set (names_before (get_response w) u n))
           (first_seen (names_before (get_response w) u n)) u ?w"
    using step by simp
  also have "\<dots> = GetWatchlist_loop (Suc n) (set (names_before (get_response w) u (Suc n)))
           (first_seen (names_before (get_response w) u (Suc n))) u
           (w\<lparr>calls := calls w @ watchlist_calls u j (Suc n)\<rparr>)"
    using GetWatchlist_loop_page [OF n ok] grow by (simp add: calls [symmetric])
  finally show ?case .
qed



lemma GetWatchlist_stop:
  assumes "1 \<le> K" "K \<le> maxWatchlistPages"
    and "\<forall>k. 1 \<le> k \<and> k < K \<longrightarrow> watchlist_grows (get_response w) u k"
    and "\<not> isl (get_response w (watchlist_url u K))"
    and "new_on_page (get_response w) u K < minNewUsernamesThreshold"
  shows "GetWatchlist u w =
     (Ok (first_seen (names_before (get_response w) u (Suc K))),
      w\<lparr>calls := calls w @ watchlist_calls u 1 (Suc K)\<rparr>)"
proof -
  let ?w = "w\<lparr>calls := calls w @ watchlist_calls u 1 K\<rparr>"
  have run: "GetWatchlist u w =
      GetWatchlist_loop K (set (names_before (get_response w) u K))
        (first_seen (names_before (get_response w) u K)) u ?w"
    using GetWatchlist_loop_run [of 1 K w u] assms(1,2,3)
    by (simp add: GetWatchlist_def names_before_def watchlist_grows_def)
  have calls: "watchlist_calls u (Suc 0) K @ [CallGet (watchlist_url u K)]
      = watchlist_calls u (Suc 0) (Suc K)"
    using assms(1) by (simp add: watchlist_calls_def)
  show ?thesis
    unfolding run
    using GetWatchlist_loop_page [of K ?w u] assms(1,2,4,5) by (simp add: calls [symmetric])
qed













lemma of_char_digit_char: "d < 10 \<Longrightarrow> (of_char (digit_char d) :: nat) = 48 + d"
  by (simp add: digit_char_def)


lemma dec_digits: "list_all is_digit (dec n)"
proof (induction n rule: dec.induct)
  case (1 n)
  show ?case
  proof (cases "n < 10")
    case True
    then show ?thesis by (subst dec.simps) (simp add: is_digit_def of_char_digit_char)
  next
    case False
    have d: "is_digit (digit_char (n mod 10))"
      by (simp add: is_digit_def of_char_digit_char)
    from False show ?thesis
      using 1 d by (subst dec.simps) simp
  qed
qed















text \<open>
  C5.  Let page \<open>K\<close> be the first watchlist page that contributes fewer than 2 new names
  (with the pages up to it fetched without error, and \<open>K\<close> within the page ceiling).
  Then \<open>GetWatchlist\<close> returns the names of the pages \<open>1..K\<close> without repetitions,
  in first-seen order, and it fetches exactly the pages \<open>1..K\<close>, in this order: no page
  behind \<open>K\<close> is requested, whatever the later pages hold.
\<close>

theorem GetWatchlist_first_seen_until_growth_drop:
  assumes "1 \<le> K" and "K \<le> maxWatchlistPages"
    and "\<forall>k\<in>{1..K}. \<not> isl (get_response w (watchlist_url u k))"
    and "\<forall>k\<in>{1..<K}. minNewUsernamesThreshold \<le> new_on_page (get_response w) u k"
    and "new_on_page (get_response w) u K < minNewUsernamesThreshold"
  shows "GetWatchlist u w =
     (Ok (first_seen (concat (map (page_names (get_response w) u) [1..<Suc K]))),
      w\<lparr>calls := calls w @ map (\<lambda>k. CallGet (watchlist_url u k)) [1..<Suc K]\<rparr>)"
proof -
  have grows: "\<forall>k. 1 \<le> k \<and> k < K \<longrightarrow> watchlist_grows (get_response w) u k"
    using assms(3,4) by (simp add: watchlist_grows_def)
  have last: "\<not> isl (get_response w (watchlist_url u K))"
    using assms(1,3) by simp
  show ?thesis
    using GetWatchlist_stop [OF assms(1,2) grows last assms(5)]
    by (simp add: names_before_def watchlist_calls_def)
qed

theorem GetWatchlist_first_seen_until_growth_drop_witness:
  "GetWatchlist ''test-watcher'' repeating_world =
     (Ok [''lorem'', ''ipsum'', ''dolor''],
      repeating_world\<lparr>calls :=
        [CallGet ''https://www.furaffinity.net/watchlist/by/test-watcher/1'',
         CallGet ''https://www.furaffinity.net/watchlist/by/test-watcher/2'']\<rparr>)"
proof -
  have k: "(1::nat) \<le> 2" "2 \<le> maxWatchlistPages"
    by (simp_all add: maxWatchlistPages_def)
  have ok: "\<forall>k\<in>{1..2}. \<not> isl (get_response repeating_world (watchlist_url ''test-watcher'' k))"
    by code_simp
  have grow: "\<forall>k\<in>{1..<2}. minNewUsernamesThreshold
      \<le> new_on_page (get_response repeating_world) ''test-watcher'' k"
    by code_simp
  have drop: "new_on_page (get_response repeating_world) ''test-watcher'' 2 < minNewUsernamesThreshold"
    by code_simp
  have names: "first_seen (concat (map (page_names (get_response repeating_world) ''test-watcher'')
      [1..<Suc 2])) = [''lorem'', ''ipsum'', ''dolor'']"
    by code_simp
  have urls: "map (\<lambda>k. CallGet (watchlist_url ''test-watcher'' k)) [1..<Suc 2] =
      [CallGet ''https://www.furaffinity.net/watchlist/by/test-watcher/1'',
       CallGet ''https://www.furaffinity.net/watchlist/by/test-watcher/2'']"
    by code_simp
  have none: "calls repeating_world = []"
    by (simp add: repeating_world_def)
  show ?thesis
    using GetWatchlist_first_seen_until_growth_drop [OF k ok grow drop]
    unfolding names urls none by simp
qed








section \<open>Properties of cookie loading\<close>





















section \<open>Properties of the file system model\<close>

lemma map_of_fs_put [simp]: "map_of (fs_put p n f) = (map_of f)(p \<mapsto> n)"
proof -
  have "map_of (filter (\<lambda>e. fst e \<noteq> p) f) q = map_of f q" if "q \<noteq> p" for q
    using that by (induction f) auto
  then show ?thesis
    by (auto simp: fs_put_def fun_eq_iff)
qed

lemma map_of_fs_remove [simp]: "map_of (fs_remove p f) = (map_of f)(p := None)"
proof -
  have "map_of (filter (\<lambda>e. fst e \<noteq> p) f) q = (if q = p then None else map_of f q)" for q
    by (induction f) auto
  then show ?thesis
    by (auto simp: fs_remove_def fun_eq_iff)
qed

lemma set_dir_names: "set (dir_names f d) = {n. map_of f (d @ [n]) \<noteq> None}"
proof -
  have "n \<in> set (dir_names f d) \<longleftrightarrow> d @ [n] \<in> fst ` set f" for n
  proof
    assume "n \<in> set (dir_names f d)"
    then obtain p where p: "p \<in> fst ` set f" "p \<noteq> []" "butlast p = d" "n = last p"
      by (auto simp: dir_names_def)
    then have "p = d @ [n]" using append_butlast_last_id [of p] by simp
    with p(1) show "d @ [n] \<in> fst ` set f" by simp
  next
    assume "d @ [n] \<in> fst ` set f"
    then have "d @ [n] \<in> set (filter (\<lambda>p. p \<noteq> [] \<and> butlast p = d) (map fst f))"
      by simp
    then have "last (d @ [n]) \<in> last ` set (filter (\<lambda>p. p \<noteq> [] \<and> butlast p = d) (map fst f))"
      by (rule imageI)
    then show "n \<in> set (dir_names f d)"
      by (simp add: dir_names_def)
  qed
  then show ?thesis
    by (auto simp: map_of_eq_None_iff)
qed

lemma IsSaved_iff:
  "IsSaved f s \<longleftrightarrow>
     is_dir f (submissionDir s)
     \<and> (\<exists>n. map_of f (submissionDir s @ [n]) \<noteq> None \<and> Match (filenameGlob (id_num s)) n)"
  by (auto simp: IsSaved_def list_ex_iff set_dir_names)

subsection \<open>The marker pattern\<close>

lemma Match_literal: "literal ps \<Longrightarrow> Match ps s \<longleftrightarrow> s = ps"
  by (induction ps s rule: Match.induct) (auto simp: literal_def)

lemma Match_star_literal:
  assumes "literal ps"
  shows "Match (CHR ''*'' # ps) s \<longleftrightarrow> (\<exists>pre. s = pre @ ps \<and> CHR ''/'' \<notin> set pre)"
proof (induction s)
  case Nil
  then show ?case using assms by (auto simp: Match_literal)
next
  case (Cons c cs)
  have "Match (CHR ''*'' # ps) (c # cs)
      \<longleftrightarrow> c # cs = ps \<or> (c \<noteq> CHR ''/'' \<and> (\<exists>pre. cs = pre @ ps \<and> CHR ''/'' \<notin> set pre))"
    using Cons assms by (simp add: Match_literal)
  also have "\<dots> \<longleftrightarrow> (\<exists>pre. c # cs = pre @ ps \<and> CHR ''/'' \<notin> set pre)"
  proof
    assume "c # cs = ps \<or> (c \<noteq> CHR ''/'' \<and> (\<exists>pre. cs = pre @ ps \<and> CHR ''/'' \<notin> set pre))"
    then show "\<exists>pre. c # cs = pre @ ps \<and> CHR ''/'' \<notin> set pre"
    proof
      assume "c # cs = ps"
      then show ?thesis by (intro exI [of _ "[]"]) simp
    next
      assume "c \<noteq> CHR ''/'' \<and> (\<exists>pre. cs = pre @ ps \<and> CHR ''/'' \<notin> set pre)"
      then obtain pre where "cs = pre @ ps" "CHR ''/'' \<notin> set pre" "c \<noteq> CHR ''/''" by blast
      then show ?thesis by (intro exI [of _ "c # pre"]) simp
    qed
  next
    assume "\<exists>pre. c # cs = pre @ ps \<and> CHR ''/'' \<notin> set pre"
    then obtain pre where pre: "c # cs = pre @ ps" "CHR ''/'' \<notin> set pre" by blast
    show "c # cs = ps \<or> (c \<noteq> CHR ''/'' \<and> (\<exists>pre. cs = pre @ ps \<and> CHR ''/'' \<notin> set pre))"
    proof (cases pre)
      case Nil
      with pre show ?thesis by simp
    next
      case (Cons a pre')
      with pre show ?thesis by auto
    qed
  qed
  finally show ?case .
qed

lemma literal_marker: "literal (''.'' @ dec i @ ''.html'')"
proof -
  have "\<forall>c\<in>set (dec i). c \<noteq> CHR ''*'' \<and> c \<noteq> CHR ''?''"
    using dec_digits [of i] by (auto simp: list_all_iff is_digit_def)
  then show ?thesis by (auto simp: literal_def)
qed

lemma Match_filenameGlob:
  "Match (filenameGlob i) n \<longleftrightarrow> (\<exists>pre. n = pre @ ''.'' @ dec i @ ''.html'' \<and> CHR ''/'' \<notin> set pre)"
  using Match_star_literal [OF literal_marker, of i n] by (simp add: filenameGlob_def)

lemma Match_htmlFilename:
  "CHR ''/'' \<notin> set filename \<Longrightarrow> Match (filenameGlob i) (htmlFilename filename i)"
  by (auto simp: Match_filenameGlob htmlFilename_def)

lemma no_Match_tmp: "\<not> Match (filenameGlob i) (n @ ''.tmp'')"
proof
  assume "Match (filenameGlob i) (n @ ''.tmp'')"
  then obtain pre where "n @ ''.tmp'' = pre @ ''.'' @ dec i @ ''.html''"
    by (auto simp: Match_filenameGlob)
  then have "last (n @ ''.tmp'') = last (pre @ ''.'' @ dec i @ ''.html'')" by simp
  then show False by simp
qed


subsection \<open>What one system call changes\<close>

lemma tick_same:
  "tick w = Some w' \<Longrightarrow>
     fs w' = fs w \<and> calls w' = calls w \<and> get_response w' = get_response w
     \<and> delay_response w' = delay_response w"
  by (auto simp: tick_def split: option.splits nat.splits)

lemma os_Create_frame:
  "os_Create p w = (r, w') \<Longrightarrow> q \<noteq> p \<Longrightarrow> map_of (fs w') q = map_of (fs w) q"
  by (auto simp: os_Create_def split: option.splits if_splits dest: tick_same)

lemma os_Create_dir:
  "os_Create p w = (r, w') \<Longrightarrow> is_dir (fs w) p \<Longrightarrow> fs w' = fs w \<and> r \<noteq> Done"
  by (auto simp: os_Create_def split: option.splits if_splits dest: tick_same)

lemma append_byte_frame: "q \<noteq> p \<Longrightarrow> map_of (append_byte p b f) q = map_of f q"
  by (simp add: append_byte_def split: option.splits node.splits)

lemma os_Write_frame:
  "os_Write p bytes w = (r, w') \<Longrightarrow> q \<noteq> p \<Longrightarrow> map_of (fs w') q = map_of (fs w) q"
proof (induction bytes arbitrary: w)
  case Nil
  then show ?case by simp
next
  case (Cons b bs)
  show ?case
  proof (cases "tick w")
    case None
    with Cons.prems show ?thesis by simp
  next
    case (Some w1)
    with Cons.prems have "os_Write p bs (w1\<lparr>fs := append_byte p b (fs w1)\<rparr>) = (r, w')"
      by simp
    from Cons.IH [OF this Cons.prems(2)] show ?thesis
      using tick_same [OF Some] Cons.prems(2) by (simp add: append_byte_frame)
  qed
qed

lemma mark_synced_frame: "q \<noteq> p \<Longrightarrow> map_of (mark_synced p f) q = map_of f q"
  by (simp add: mark_synced_def split: option.splits node.splits)

lemma os_Sync_frame:
  "os_Sync p w = (r, w') \<Longrightarrow> q \<noteq> p \<Longrightarrow> map_of (fs w') q = map_of (fs w) q"
  by (auto simp: os_Sync_def mark_synced_frame split: option.splits dest: tick_same)

lemma os_Rename_frame:
  "os_Rename old new w = (r, w') \<Longrightarrow> q \<noteq> old \<Longrightarrow> q \<noteq> new
     \<Longrightarrow> map_of (fs w') q = map_of (fs w) q"
  by (auto simp: os_Rename_def split: option.splits node.splits if_splits dest: tick_same)

lemma WriteAndFsyncFile_frame:
  assumes "WriteAndFsyncFile p bytes w = (r, w')" and "q \<noteq> p"
  shows "map_of (fs w') q = map_of (fs w) q"
proof (cases "p \<noteq> Clean p")
  case True
  with assms show ?thesis by (simp add: WriteAndFsyncFile_def)
next
  case False
  obtain r1 w1 where c: "os_Create p w = (r1, w1)" by (cases "os_Create p w") auto
  note f1 = os_Create_frame [OF c assms(2)]
  show ?thesis
  proof (cases "r1 = Done")
    case False
    with \<open>\<not> p \<noteq> Clean p\<close> c assms(1) have "w' = w1"
      by (cases r1) (simp_all add: WriteAndFsyncFile_def)
    with f1 show ?thesis by simp
  next
    case True
    obtain r2 w2 where wr: "os_Write p bytes w1 = (r2, w2)" by (cases "os_Write p bytes w1") auto
    note f2 = os_Write_frame [OF wr assms(2)]
    show ?thesis
    proof (cases "r2 = Done")
      case False
      with \<open>\<not> p \<noteq> Clean p\<close> c True wr assms(1) have "w' = w2"
        by (cases r2) (simp_all add: WriteAndFsyncFile_def)
      with f1 f2 show ?thesis by simp
    next
      case r2: True
      with \<open>\<not> p \<noteq> Clean p\<close> c True wr assms(1) have "os_Sync p w2 = (r, w')"
        by (simp add: WriteAndFsyncFile_def)
      from os_Sync_frame [OF this assms(2)] f1 f2 show ?thesis by simp
    qed
  qed
qed

lemma WriteAndFsyncFile_dir:
  assumes "WriteAndFsyncFile p bytes w = (r, w')" and "is_dir (fs w) p"
  shows "fs w' = fs w \<and> r \<noteq> Done"
proof (cases "p \<noteq> Clean p")
  case True
  with assms show ?thesis by (auto simp: WriteAndFsyncFile_def)
next
  case False
  obtain r1 w1 where c: "os_Create p w = (r1, w1)" by (cases "os_Create p w") auto
  from os_Create_dir [OF c assms(2)] have "fs w1 = fs w" "r1 \<noteq> Done" by auto
  with False c assms(1) show ?thesis
    by (cases r1) (simp_all add: WriteAndFsyncFile_def)
qed


subsection \<open>Directories\<close>

lemma os_Mkdir_files:
  "os_Mkdir p w = (r, w') \<Longrightarrow> file_at (fs w') = file_at (fs w)"
  by (auto simp: os_Mkdir_def file_at_def fun_eq_iff is_dir_def
           split: option.splits if_splits dest: tick_same)

lemma MkdirAll_files:
  "MkdirAll p w = (r, w') \<Longrightarrow> file_at (fs w') = file_at (fs w)"
proof (induction p w arbitrary: r w' rule: MkdirAll.induct)
  case (1 p w)
  show ?case
  proof (cases "is_dir (fs w) p \<or> map_of (fs w) p \<noteq> None")
    case True
    with 1(2) show ?thesis by (subst (asm) MkdirAll.simps) (auto split: if_splits)
  next
    case False
    obtain r1 w1 where m: "MkdirAll (butlast p) w = (r1, w1)"
      by (cases "MkdirAll (butlast p) w") auto
    from False have c: "\<not> is_dir (fs w) p" "\<not> map_of (fs w) p \<noteq> None" by auto
    note ih = 1(1) [OF c m]
    show ?thesis
    proof (cases "r1 = Done")
      case True
      with 1(2) False m have "os_Mkdir p w1 = (r, w')"
        by (subst (asm) MkdirAll.simps) simp
      from os_Mkdir_files [OF this] ih show ?thesis by simp
    next
      case False
      with 1(2) c m have "w' = w1"
        by (subst (asm) MkdirAll.simps) (cases r1; simp)
      with ih show ?thesis by simp
    qed
  qed
qed

lemma os_Mkdir_Done:
  assumes "os_Mkdir p w = (Done, w')" and "parents_ok (fs w)"
  shows "is_dir (fs w') p \<and> parents_ok (fs w')"
proof -
  from assms(1) obtain w1 where t: "tick w = Some w1"
    by (auto simp: os_Mkdir_def split: option.splits)
  note same = tick_same [OF t]
  show ?thesis
  proof (cases "is_dir (fs w1) p")
    case True
    with assms t same show ?thesis by (simp add: os_Mkdir_def)
  next
    case False
    with assms(1) t have new: "map_of (fs w1) p = None" "is_dir (fs w1) (butlast p)"
      and w': "w' = w1\<lparr>fs := fs_put p Dir (fs w1)\<rparr>"
      by (auto simp: os_Mkdir_def split: if_splits)
    have mono: "is_dir (fs w1) q \<Longrightarrow> is_dir (fs w') q" for q
      using new(1) w' by (auto simp: is_dir_def)
    have "parents_ok (fs w')"
      unfolding parents_ok_def
    proof (intro allI impI)
      fix q assume q: "map_of (fs w') q \<noteq> None"
      show "is_dir (fs w') (butlast q)"
      proof (cases "q = p")
        case True
        with new(2) mono show ?thesis by simp
      next
        case False
        with q w' have "map_of (fs w1) q \<noteq> None" by simp
        with assms(2) same have "is_dir (fs w1) (butlast q)" by (simp add: parents_ok_def)
        then show ?thesis by (rule mono)
      qed
    qed
    moreover have "is_dir (fs w') p" using w' by (simp add: is_dir_def)
    ultimately show ?thesis by simp
  qed
qed

lemma MkdirAll_Done:
  "MkdirAll p w = (Done, w') \<Longrightarrow> parents_ok (fs w) \<Longrightarrow> is_dir (fs w') p \<and> parents_ok (fs w')"
proof (induction p w arbitrary: w' rule: MkdirAll.induct)
  case (1 p w)
  show ?case
  proof (cases "is_dir (fs w) p")
    case True
    with 1(2,3) show ?thesis by (subst (asm) MkdirAll.simps) simp
  next
    case False
    with 1(2) have none: "\<not> map_of (fs w) p \<noteq> None"
      by (subst (asm) MkdirAll.simps) (auto split: if_splits)
    obtain r1 w1 where m: "MkdirAll (butlast p) w = (r1, w1)"
      by (cases "MkdirAll (butlast p) w") auto
    with 1(2) False none have r1: "r1 = Done" and mk: "os_Mkdir p w1 = (Done, w')"
      by (subst (asm) MkdirAll.simps; cases r1; simp)+
    from 1(1) [OF False none] m r1 1(3) have "parents_ok (fs w1)" by simp
    from os_Mkdir_Done [OF mk this] show ?thesis .
  qed
qed

lemma is_dir_parent: "parents_ok f \<Longrightarrow> is_dir f p \<Longrightarrow> is_dir f (butlast p)"
  by (cases "p = []") (auto simp: parents_ok_def is_dir_def)

subsection \<open>Joining a name to a directory\<close>

lemma Split_no_sep: "sep \<notin> set s \<Longrightarrow> Split sep s = [s]"
  by (induction s) auto

lemma Split_not_Nil: "Split sep s \<noteq> []"
  by (induction s) (auto split: list.splits)

lemma Join_plain: "plain_name n \<Longrightarrow> Join d n = d @ [n]"
  by (simp add: Join_def Split_no_sep plain_name_def join_step_def)

lemma Join_special:
  "CHR ''/'' \<notin> set n \<Longrightarrow> \<not> plain_name n \<Longrightarrow> Join d n = d \<or> Join d n = butlast d"
  by (auto simp: Join_def Split_no_sep plain_name_def join_step_def)

lemma plain_htmlFilename: "CHR ''/'' \<notin> set filename \<Longrightarrow> plain_name (htmlFilename filename i)"
proof -
  assume a: "CHR ''/'' \<notin> set filename"
  have digits: "CHR ''/'' \<notin> set (dec i)"
    using dec_digits [of i] by (auto simp: list_all_iff is_digit_def)
  have "length (htmlFilename filename i) \<ge> 6"
    by (simp add: htmlFilename_def)
  then have "htmlFilename filename i \<noteq> []" "htmlFilename filename i \<noteq> ''.''"
    "htmlFilename filename i \<noteq> ''..''"
    by auto
  moreover have "CHR ''/'' \<notin> set (htmlFilename filename i)"
    using a digits by (simp add: htmlFilename_def)
  ultimately show ?thesis by (simp add: plain_name_def)
qed

subsection \<open>The download link\<close>

lemma Split_sep: "sep \<in> set s \<Longrightarrow> \<exists>a b bs. Split sep s = a # b # bs"
proof (induction s)
  case Nil
  then show ?case by simp
next
  case (Cons c s)
  show ?case
  proof (cases "c = sep")
    case True
    then show ?thesis using Split_not_Nil [of sep s] by (cases "Split sep s") auto
  next
    case False
    with Cons obtain a b bs where "Split sep s = a # b # bs" by auto
    with False show ?thesis by simp
  qed
qed

lemma takeWhile_snoc_stop: "\<not> P x \<Longrightarrow> takeWhile P (xs @ [x]) = takeWhile P xs"
  by (induction xs) auto

lemma last_Split: "last (Split sep s) = rev (takeWhile (\<lambda>c. c \<noteq> sep) (rev s))"
proof (induction s)
  case Nil
  then show ?case by simp
next
  case (Cons c s)
  show ?case
  proof (cases "c = sep")
    case True
    then show ?thesis
      using Cons Split_not_Nil [of sep s] by (simp add: takeWhile_snoc_stop)
  next
    case False
    show ?thesis
    proof (cases "sep \<in> set s")
      case True
      then obtain a b bs where sp: "Split sep s = a # b # bs"
        using Split_sep by blast
      have "takeWhile (\<lambda>c. c \<noteq> sep) (rev s @ [c]) = takeWhile (\<lambda>c. c \<noteq> sep) (rev s)"
        using True by (simp add: takeWhile_append1)
      with Cons sp False show ?thesis by simp
    next
      case no: False
      then have tw: "takeWhile (\<lambda>c. c \<noteq> sep) (rev s @ [c]) = rev s @ [c]"
        using False by (auto simp: takeWhile_append2)
      show ?thesis using no False by (simp add: Split_no_sep tw)
    qed
  qed
qed

lemma last_Split_no_sep: "sep \<notin> set (last (Split sep s))"
proof -
  have "sep \<notin> set (takeWhile (\<lambda>c. c \<noteq> sep) (rev s))"
    using set_takeWhileD [of sep "\<lambda>c. c \<noteq> sep" "rev s"] by blast
  then show ?thesis by (simp add: last_Split)
qed

lemma replacer_slash: "replacer c = CHR ''/'' \<longleftrightarrow> c = CHR ''/''"
  by (simp add: replacer_def)

lemma replacer_clean: "replacer c \<notin> forbidden"
  by (simp add: replacer_def forbidden_def)

lemma parse_filename:
  assumes "parseURLAndFilenameFromViewPage pageContent = Inr (downloadURL, filename)"
  shows "filename = map replacer (rev (takeWhile (\<lambda>c. c \<noteq> CHR ''/'') (rev downloadURL)))"
    and "CHR ''/'' \<notin> set filename"
    and "set filename \<inter> forbidden = {}"
proof -
  from assms have fn: "filename = map replacer (last (Split (CHR ''/'') downloadURL))"
    by (auto simp: parseURLAndFilenameFromViewPage_def Let_def split: option.splits if_splits)
  then show "filename = map replacer (rev (takeWhile (\<lambda>c. c \<noteq> CHR ''/'') (rev downloadURL)))"
    by (simp add: last_Split)
  show "CHR ''/'' \<notin> set filename"
  proof
    assume "CHR ''/'' \<in> set filename"
    then obtain c where "c \<in> set (last (Split (CHR ''/'') downloadURL))" "replacer c = CHR ''/''"
      by (auto simp: fn)
    then have "CHR ''/'' \<in> set (last (Split (CHR ''/'') downloadURL))"
      by (simp add: replacer_slash)
    with last_Split_no_sep [of "CHR ''/''" downloadURL] show False by simp
  qed
  show "set filename \<inter> forbidden = {}"
    using replacer_clean by (auto simp: fn)
qed


subsection \<open>What the calls leave alone\<close>

lemma same_net_refl [simp]: "same_net w w"
  by (simp add: same_net_def)

lemma same_net_trans: "same_net w w1 \<Longrightarrow> same_net w1 w2 \<Longrightarrow> same_net w w2"
  by (simp add: same_net_def)

lemma tick_net: "tick w = Some w' \<Longrightarrow> same_net w w'"
  by (simp add: same_net_def tick_same)

lemma os_Create_net: "os_Create p w = (r, w') \<Longrightarrow> same_net w w'"
  by (auto simp: os_Create_def same_net_def split: option.splits if_splits dest: tick_same)

lemma os_Write_net: "os_Write p bytes w = (r, w') \<Longrightarrow> same_net w w'"
proof (induction bytes arbitrary: w)
  case Nil
  then show ?case by simp
next
  case (Cons b bs)
  show ?case
  proof (cases "tick w")
    case None
    with Cons.prems show ?thesis by simp
  next
    case (Some w1)
    with Cons.prems have "os_Write p bs (w1\<lparr>fs := append_byte p b (fs w1)\<rparr>) = (r, w')"
      by simp
    from Cons.IH [OF this] tick_same [OF Some] show ?thesis
      by (simp add: same_net_def)
  qed
qed

lemma os_Sync_net: "os_Sync p w = (r, w') \<Longrightarrow> same_net w w'"
  by (auto simp: os_Sync_def same_net_def split: option.splits dest: tick_same)

lemma os_Rename_net: "os_Rename old new w = (r, w') \<Longrightarrow> same_net w w'"
  by (auto simp: os_Rename_def same_net_def split: option.splits node.splits if_splits
           dest: tick_same)

lemma os_Mkdir_net: "os_Mkdir p w = (r, w') \<Longrightarrow> same_net w w'"
  by (auto simp: os_Mkdir_def same_net_def split: option.splits if_splits dest: tick_same)

lemma WriteAndFsyncFile_net:
  assumes "WriteAndFsyncFile p bytes w = (r, w')"
  shows "same_net w w'"
proof (cases "p \<noteq> Clean p")
  case True
  with assms show ?thesis by (auto simp: WriteAndFsyncFile_def)
next
  case False
  obtain r1 w1 where c: "os_Create p w = (r1, w1)" by (cases "os_Create p w") auto
  obtain r2 w2 where wr: "os_Write p bytes w1 = (r2, w2)" by (cases "os_Write p bytes w1") auto
  obtain r3 w3 where sy: "os_Sync p w2 = (r3, w3)" by (cases "os_Sync p w2") auto
  note n = os_Create_net [OF c] os_Write_net [OF wr] os_Sync_net [OF sy]
  have "w' = w1 \<or> w' = w2 \<or> w' = w3"
    using assms False c wr sy
    by (cases r1; cases r2) (auto simp: WriteAndFsyncFile_def)
  with n show ?thesis by (auto intro: same_net_trans)
qed

lemma MkdirAll_net: "MkdirAll p w = (r, w') \<Longrightarrow> same_net w w'"
proof (induction p w arbitrary: r w' rule: MkdirAll.induct)
  case (1 p w)
  show ?case
  proof (cases "is_dir (fs w) p \<or> map_of (fs w) p \<noteq> None")
    case True
    with 1(2) show ?thesis by (subst (asm) MkdirAll.simps) (auto split: if_splits)
  next
    case False
    obtain r1 w1 where m: "MkdirAll (butlast p) w = (r1, w1)"
      by (cases "MkdirAll (butlast p) w") auto
    from False have c: "\<not> is_dir (fs w) p" "\<not> map_of (fs w) p \<noteq> None" by auto
    note ih = 1(1) [OF c m]
    show ?thesis
    proof (cases "r1 = Done")
      case True
      with 1(2) False m have "os_Mkdir p w1 = (r, w')"
        by (subst (asm) MkdirAll.simps) simp
      from os_Mkdir_net [OF this] ih show ?thesis by (rule same_net_trans [rotated])
    next
      case False
      with 1(2) c m have "w' = w1"
        by (subst (asm) MkdirAll.simps) (cases r1; simp)
      with ih show ?thesis by simp
    qed
  qed
qed

lemma os_Mkdir_frame:
  "os_Mkdir p w = (r, w') \<Longrightarrow> q \<noteq> p \<Longrightarrow> map_of (fs w') q = map_of (fs w) q"
  by (auto simp: os_Mkdir_def split: option.splits if_splits dest: tick_same)

lemma MkdirAll_frame:
  "MkdirAll p w = (r, w') \<Longrightarrow> \<not> prefix q p \<Longrightarrow> map_of (fs w') q = map_of (fs w) q"
proof (induction p w arbitrary: r w' rule: MkdirAll.induct)
  case (1 p w)
  show ?case
  proof (cases "is_dir (fs w) p \<or> map_of (fs w) p \<noteq> None")
    case True
    with 1(2) show ?thesis by (subst (asm) MkdirAll.simps) (auto split: if_splits)
  next
    case False
    obtain r1 w1 where m: "MkdirAll (butlast p) w = (r1, w1)"
      by (cases "MkdirAll (butlast p) w") auto
    from False have c: "\<not> is_dir (fs w) p" "\<not> map_of (fs w) p \<noteq> None" by auto
    have "\<not> prefix q (butlast p)"
      using 1(3) prefix_order.trans [of q "butlast p" p] by (auto simp: prefixeq_butlast)
    note ih = 1(1) [OF c m this]
    have qp: "q \<noteq> p" using 1(3) by auto
    show ?thesis
    proof (cases "r1 = Done")
      case True
      with 1(2) False m have "os_Mkdir p w1 = (r, w')"
        by (subst (asm) MkdirAll.simps) simp
      from os_Mkdir_frame [OF this qp] ih show ?thesis by simp
    next
      case False
      with 1(2) c m have "w' = w1"
        by (subst (asm) MkdirAll.simps) (cases r1; simp)
      with ih show ?thesis by simp
    qed
  qed
qed



end
